theory Spec2Isabelle
  imports Complex_Main
begin

section \<open>Shor's algorithm: the classical parts of the order-finding factoriser\<close>

text \<open>
  The development follows \<^verbatim>\<open>src/module_exp.py\<close> and \<^verbatim>\<open>src/main.py\<close>.
  Python's unbounded integers are \<open>int\<close>; values that the program only ever produces as
  non-negative counts (register contents, bit widths, an order) are \<open>nat\<close>.
  Every \<^verbatim>\<open>raise\<close> and every failing \<^verbatim>\<open>assert\<close> is a value \<open>Inl e\<close> of a
  result type \<open>error + 'a\<close>; Python's \<^verbatim>\<open>None\<close> is \<open>None\<close>.
\<close>

datatype error = ValueError | AssertionError | ZeroDivisionError | OverflowError | IndexError

subsection \<open>\<^verbatim>\<open>ModularExp\<close> (module\_exp.py)\<close>

text \<open>
  \<^verbatim>\<open>ModularExp.__init__\<close>: the only check is that the target register has at least
  \<^verbatim>\<open>modulus.bit_length()\<close> qubits. \<open>bit_length\<close> is Python's \<^verbatim>\<open>int.bit_length\<close>:
  the number of binary digits of the absolute value.
\<close>

fun bitlen :: "nat \<Rightarrow> nat" where
  "bitlen n = (if n = 0 then 0 else Suc (bitlen (n div 2)))"

declare bitlen.simps [simp del]

definition bit_length :: "int \<Rightarrow> nat" where
  "bit_length n = bitlen (nat \<bar>n\<bar>)"

record modular_exp =
  target :: nat
  exponent :: nat
  base :: int
  modulus :: int

text \<open>The registers are given by their widths (the source passes \<^verbatim>\<open>[2] * width\<close>).\<close>

definition ModularExp :: "nat \<Rightarrow> nat \<Rightarrow> int \<Rightarrow> int \<Rightarrow> error + modular_exp" where
  "ModularExp tgt ex b m =
     (if tgt < bit_length m then Inl ValueError
      else Inr \<lparr>target = tgt, exponent = ex, base = b, modulus = m\<rparr>)"

text \<open>
  \<^verbatim>\<open>ModularExp.apply(target, exponent, base, modulus)\<close> (\<open>apply\<close> is a
  reserved word of the proof language, hence the prefix). The exponent is a register value,
  hence a \<open>nat\<close>. Python's \<^verbatim>\<open>%\<close> on integers is floor-mod, as \<open>mod\<close> on \<open>int\<close>, except
  that a zero divisor raises; that case (only reachable with a negative target and
  modulus 0) is written out.
\<close>

definition ModularExp_apply :: "int \<Rightarrow> nat \<Rightarrow> int \<Rightarrow> int \<Rightarrow> error + int" where
  "ModularExp_apply tv ev b m =
     (if tv \<ge> m then Inr tv
      else if m = 0 then Inl ZeroDivisionError
      else Inr ((tv * b ^ ev) mod m))"

subsection \<open>Library functions the program calls\<close>

text \<open>
  \<^verbatim>\<open>sympy.isprime\<close>: the primality oracle, exact (trial division here).
\<close>

definition isprime :: "int \<Rightarrow> bool" where
  "isprime n = (2 \<le> n \<and> filter (\<lambda>d. d dvd nat n) [2..<nat n] = [])"

text \<open>
  \<^verbatim>\<open>random.randint(a, b)\<close> raises \<^verbatim>\<open>ValueError\<close> on an empty range and otherwise
  returns some integer of \<open>[a, b]\<close>; which one is decided by the generator's state,
  here the raw number \<open>raw\<close>.
\<close>

definition randint :: "int \<Rightarrow> int \<Rightarrow> nat \<Rightarrow> error + int" where
  "randint a b raw = (if b < a then Inl ValueError else Inr (a + int raw mod (b - a + 1)))"

text \<open>
  Floating point. A finite double is a rational number, so a float value is a \<open>rat\<close>.
  \<^verbatim>\<open>math.log2(n)\<close> and \<^verbatim>\<open>math.pow(n, 1 / k)\<close> are given by the platform's
  mathematical library and are parameters of the model: \<open>fl_log2 fl n\<close> is the double
  returned by \<^verbatim>\<open>math.log2(n)\<close> for a positive integer \<open>n\<close>, and \<open>fl_pow fl n k\<close> the
  outcome of \<^verbatim>\<open>math.pow(n, 1 / k)\<close>, which raises \<^verbatim>\<open>OverflowError\<close> when \<open>n\<close>
  is too large for a double. Theorems that depend on how accurate these are say so in
  their hypotheses.
\<close>

record float_lib =
  fl_log2 :: "int \<Rightarrow> rat"
  fl_pow :: "int \<Rightarrow> nat \<Rightarrow> error + rat"

text \<open>
  The conversion of an integer to a double: exact below \<open>2 ^ 53\<close> in absolute value,
  otherwise rounded to 53 significant bits, ties to even. Dividing a double by a power of
  two is exact (within the exponent range, which a register of fewer than 1022 bits stays
  in).
\<close>

definition round53 :: "int \<Rightarrow> int" where
  "round53 m =
     (if \<bar>m\<bar> < 2 ^ 53 then m
      else let e = bit_length m - 53; q = \<bar>m\<bar> div 2 ^ e; r = \<bar>m\<bar> mod 2 ^ e; h = 2 ^ (e - 1)
           in sgn m * (if h < r \<or> (r = h \<and> odd q) then (q + 1) * 2 ^ e else q * 2 ^ e))"

text \<open>
  \<^verbatim>\<open>fractions.Fraction\<close> is a \<open>rat\<close>; \<open>quotient_of\<close> gives its numerator and its
  (positive) denominator in lowest terms. \<^verbatim>\<open>Fraction.limit_denominator\<close> is the standard
  library's algorithm: the loop over the continued-fraction expansion, then the choice
  between the last convergent \<open>p1/q1\<close> and the semiconvergent \<open>(p0+k*p1)/(q0+k*q1)\<close>.
  The divisions by \<open>d\<close> and by \<open>q1\<close> and the construction of a fraction raise
  \<^verbatim>\<open>ZeroDivisionError\<close> on a zero divisor; these branches are written out (and shown
  unreachable below).
\<close>

function ld_loop :: "int \<Rightarrow> int \<Rightarrow> int \<Rightarrow> int \<Rightarrow> int \<Rightarrow> int \<Rightarrow> int \<Rightarrow> error + int \<times> int \<times> int \<times> int" where
  "ld_loop max_denominator p0 q0 p1 q1 n d =
     (if d = 0 then Inl ZeroDivisionError
      else let a = n div d; q2 = q0 + a * q1
           in if q2 > max_denominator then Inr (p0, q0, p1, q1)
              else ld_loop max_denominator p1 q1 (p0 + a * p1) q2 d (n - a * d))"
  by pat_completeness auto
termination
proof (relation "measure (\<lambda>(mx, p0, q0, p1, q1, n, d). nat \<bar>d\<bar>)")
  show "wf (measure (\<lambda>(mx, p0, q0, p1, q1, n, d). nat \<bar>d\<bar>))"
    by simp
next
  fix max_denominator p0 q0 p1 q1 n d a q2 :: int
  assume d: "d \<noteq> 0" and a: "a = n div d"
  have "n - a * d = n mod d"
    by (simp add: a minus_div_mult_eq_mod)
  moreover have "\<bar>n mod d\<bar> < \<bar>d\<bar>"
    using d by (simp add: abs_mod_less)
  ultimately show "((max_denominator, p1, q1, p0 + a * p1, q2, d, n - a * d),
       (max_denominator, p0, q0, p1, q1, n, d))
      \<in> measure (\<lambda>(mx, p0, q0, p1, q1, n, d). nat \<bar>d\<bar>)"
    using d by simp
qed

declare ld_loop.simps [simp del]

definition limit_denominator :: "rat \<Rightarrow> int \<Rightarrow> error + rat" where
  "limit_denominator f max_denominator =
     (if max_denominator < 1 then Inl ValueError
      else if snd (quotient_of f) \<le> max_denominator then Inr f
      else case ld_loop max_denominator 0 1 1 0 (fst (quotient_of f)) (snd (quotient_of f)) of
             Inl e \<Rightarrow> Inl e
           | Inr (p0, q0, p1, q1) \<Rightarrow>
               if q1 = 0 then Inl ZeroDivisionError
               else let k = (max_denominator - q0) div q1
                    in if q0 + k * q1 = 0 then Inl ZeroDivisionError
                       else let bound1 = Fract (p0 + k * p1) (q0 + k * q1);
                                bound2 = Fract p1 q1
                            in if \<bar>bound2 - f\<bar> \<le> \<bar>bound1 - f\<bar> then Inr bound2
                               else Inr bound1)"

subsection \<open>The order finders (main.py)\<close>

text \<open>
  \<^verbatim>\<open>naive_order_finder\<close>. The \<^verbatim>\<open>while\<close> loop may run forever, so it is a partial
  function: \<open>None\<close> is "does not return". The finder's result is \<open>Some (Inl ValueError)\<close>
  when the guard raises and \<open>Some (Inr r)\<close> when it returns \<open>r\<close>.
\<close>

partial_function (option) naive_loop :: "int \<Rightarrow> int \<Rightarrow> nat \<Rightarrow> int \<Rightarrow> nat option" where
  "naive_loop x n r y = (if y = 1 then Some r else naive_loop x n (r + 1) ((x * y) mod n))"

definition naive_order_finder :: "int \<Rightarrow> int \<Rightarrow> (error + nat) option" where
  "naive_order_finder x n =
     (if x < 2 \<or> n \<le> x \<or> gcd x n > 1 then Some (Inl ValueError)
      else map_option Inr (naive_loop x n 1 x))"

text \<open>
  \<^verbatim>\<open>make_order_finding_circuit\<close>: \<open>L = n.bit_length()\<close> target qubits, \<open>2L + 3\<close> exponent
  qubits (\<^verbatim>\<open>LineQubit.range(L, 3 * L + 3)\<close>), and the \<^verbatim>\<open>ModularExp\<close> gate over them.
  \<^verbatim>\<open>target[L - 1]\<close> is evaluated first and raises \<^verbatim>\<open>IndexError\<close> on an empty register.
  The gates of the circuit library (X, H, the inverse QFT, the measurement) are outside
  the model; the circuit keeps what the decoder depends on.
\<close>

record circuit =
  target_qubits :: nat
  exponent_qubits :: nat
  gate :: modular_exp

definition make_order_finding_circuit :: "int \<Rightarrow> int \<Rightarrow> error + circuit" where
  "make_order_finding_circuit x n =
     (let L = bit_length n
      in if L = 0 then Inl IndexError
         else case ModularExp L (2 * L + 3) x n of
                Inl e \<Rightarrow> Inl e
              | Inr g \<Rightarrow> Inr \<lparr>target_qubits = L, exponent_qubits = 2 * L + 3, gate = g\<rparr>)"

text \<open>
  The result of sampling the circuit once: the integer read from the exponent register
  (\<^verbatim>\<open>result.data["exponent"][0]\<close>) and the number of measured bits
  (\<^verbatim>\<open>result.measurements["exponent"].shape[1]\<close>).
\<close>

record measurement =
  exponent_as_integer :: int
  exponent_num_bits :: nat

definition eigenphase :: "measurement \<Rightarrow> rat" where
  "eigenphase result =
     of_int (round53 (exponent_as_integer result)) / 2 ^ exponent_num_bits result"

text \<open>
  \<^verbatim>\<open>process_measurement\<close>. The denominator of a fraction is positive, so the returned
  order is a \<open>nat\<close>. \<^verbatim>\<open>x ** r % n\<close> cannot divide by zero: \<open>limit_denominator\<close> has raised
  for \<open>n < 1\<close> before.
\<close>

definition process_measurement :: "measurement \<Rightarrow> int \<Rightarrow> int \<Rightarrow> error + nat option" where
  "process_measurement result x n =
     (case limit_denominator (eigenphase result) n of
        Inl e \<Rightarrow> Inl e
      | Inr f \<Rightarrow>
          if fst (quotient_of f) = 0 then Inr None
          else let r = nat (snd (quotient_of f))
               in if x ^ r mod n \<noteq> 1 then Inr None else Inr (Some r))"

text \<open>
  \<^verbatim>\<open>quantum_order_finder\<close>. \<^verbatim>\<open>cirq.sample\<close> is the external sampler: a parameter
  giving the measurement for a circuit.
\<close>

definition quantum_order_finder :: "(circuit \<Rightarrow> measurement) \<Rightarrow> int \<Rightarrow> int \<Rightarrow> error + nat option" where
  "quantum_order_finder sample x n =
     (if x < 2 \<or> n \<le> x \<or> gcd x n > 1 then Inl ValueError
      else case make_order_finding_circuit x n of
             Inl e \<Rightarrow> Inl e
           | Inr c \<Rightarrow> process_measurement (sample c) x n)"

subsection \<open>The factor search (main.py)\<close>

text \<open>
  \<^verbatim>\<open>find_factor_of_prime_power\<close>: the loop over \<^verbatim>\<open>range(2, floor(log2 n) + 1)\<close>.
  \<^verbatim>\<open>math.log2\<close> raises \<^verbatim>\<open>ValueError\<close> for \<open>n \<le> 0\<close>.
\<close>

fun prime_power_loop :: "float_lib \<Rightarrow> int \<Rightarrow> nat list \<Rightarrow> error + int option" where
  "prime_power_loop fl n [] = Inr None"
| "prime_power_loop fl n (k # ks) =
     (case fl_pow fl n k of
        Inl e \<Rightarrow> Inl e
      | Inr c \<Rightarrow>
          let c1 = \<lfloor>c\<rfloor>
          in if c1 ^ k = n then Inr (Some c1)
             else let c2 = \<lceil>c\<rceil>
                  in if c2 ^ k = n then Inr (Some c2)
                     else prime_power_loop fl n ks)"

definition find_factor_of_prime_power :: "float_lib \<Rightarrow> int \<Rightarrow> error + int option" where
  "find_factor_of_prime_power fl n =
     (if n \<le> 0 then Inl ValueError
      else prime_power_loop fl n [2..<nat (\<lfloor>fl_log2 fl n\<rfloor> + 1)])"

text \<open>
  \<^verbatim>\<open>find_factor\<close>. An order finder is any callable; it may be randomised (the quantum one
  samples a circuit), so it also receives the number of the attempt, which stands for
  whatever its answer depends on besides \<open>x\<close> and \<open>n\<close>. It returns an order (a \<open>nat\<close>),
  \<open>None\<close>, or raises. \<open>draws i\<close> is the generator's raw output at attempt \<open>i\<close>.
  The \<^verbatim>\<open>print\<close> calls are left out.
\<close>

type_synonym order_finder = "nat \<Rightarrow> int \<Rightarrow> int \<Rightarrow> error + nat option"

fun attempts :: "int \<Rightarrow> order_finder \<Rightarrow> (nat \<Rightarrow> nat) \<Rightarrow> nat \<Rightarrow> nat \<Rightarrow> error + int option" where
  "attempts n order_finder draws i 0 = Inr None"
| "attempts n order_finder draws i (Suc k) =
     (case randint 2 (n - 1) (draws i) of
        Inl e \<Rightarrow> Inl e
      | Inr x \<Rightarrow>
          let c = gcd x n
          in if 1 < c \<and> c < n then Inr (Some c)
             else (case order_finder i x n of
                     Inl e \<Rightarrow> Inl e
                   | Inr None \<Rightarrow> attempts n order_finder draws (Suc i) k
                   | Inr (Some r) \<Rightarrow>
                       (if r mod 2 \<noteq> 0 then attempts n order_finder draws (Suc i) k
                        else let y = x ^ (r div 2) mod n
                             in if 1 < y \<and> y < n
                                then let c = gcd (y - 1) n
                                     in if 1 < c \<and> c < n then Inr (Some c)
                                        else attempts n order_finder draws (Suc i) k
                                else Inl AssertionError)))"

definition find_factor :: "float_lib \<Rightarrow> (nat \<Rightarrow> nat) \<Rightarrow> int \<Rightarrow> order_finder \<Rightarrow> int \<Rightarrow> error + int option" where
  "find_factor fl draws n order_finder max_attempts =
     (if isprime n then Inr None
      else if n mod 2 = 0 then Inr (Some 2)
      else case find_factor_of_prime_power fl n of
             Inl e \<Rightarrow> Inl e
           | Inr (Some c) \<Rightarrow> Inr (Some c)
           | Inr None \<Rightarrow> attempts n order_finder draws 0 (nat max_attempts))"

subsection \<open>Sample values of the floating-point library\<close>

text \<open>
  The doubles that \<^verbatim>\<open>math.log2(n)\<close> and \<^verbatim>\<open>math.pow(n, 1 / k)\<close> return for
  \<open>n = 21\<close>, \<open>27\<close> and \<open>81\<close> and the \<open>k\<close> of the loop, as exact fractions
  (\<^verbatim>\<open>float.as_integer_ratio\<close>); for instance \<^verbatim>\<open>math.pow(81, 1 / 2) = 9.0\<close> and
  \<^verbatim>\<open>math.log2(21) = 4.392317422778761\<close>. The table is used for the concrete runs below
  and says nothing about other arguments.
\<close>

definition sample_floats :: float_lib where
  "sample_floats =
     \<lparr>fl_log2 = (\<lambda>n.
        if n = 21 then 4945309777129841 / 1125899906842624
        else if n = 27 then 2676763697866503 / 562949953421312
        else if n = 81 then 892254565955501 / 140737488355328
        else 0),
      fl_pow = (\<lambda>n k.
        if n = 21 \<and> k = 2 then Inr (5159521548050053 / 1125899906842624)
        else if n = 21 \<and> k = 3 then Inr (6212544946346733 / 2251799813685248)
        else if n = 21 \<and> k = 4 then Inr (4820416924002349 / 2251799813685248)
        else if n = 27 \<and> k = 2 then Inr (45705840067699 / 8796093022208)
        else if n = 27 \<and> k = 3 then Inr 3
        else if n = 27 \<and> k = 4 then Inr (320812097884061 / 140737488355328)
        else if n = 81 \<and> k = 2 then Inr 9
        else if n = 81 \<and> k = 3 then Inr (608935746319847 / 140737488355328)
        else if n = 81 \<and> k = 4 then Inr 3
        else if n = 81 \<and> k = 5 then Inr (2711419948813639 / 1125899906842624)
        else if n = 81 \<and> k = 6 then Inr (585491545649747 / 281474976710656)
        else Inl OverflowError)\<rparr>"

subsection \<open>Specification notions\<close>

text \<open>
  The multiplicative order of \<open>x\<close> modulo \<open>n\<close>: the least positive \<open>r\<close> with
  \<open>x ^ r mod n = 1\<close>. It is used in proofs only; the program does not compute with it.
\<close>

definition order_of :: "int \<Rightarrow> int \<Rightarrow> nat" where
  "order_of x n = (LEAST r. 0 < r \<and> x ^ r mod n = 1)"

subsection \<open>Properties of \<^verbatim>\<open>ModularExp.apply\<close>\<close>

lemma coprime_mult_mod_inj:
  fixes m c t1 t2 :: int
  assumes cop: "coprime c m" and m: "1 \<le> m"
    and t1: "0 \<le> t1" "t1 < m" and t2: "0 \<le> t2" "t2 < m"
    and eq: "(t1 * c) mod m = (t2 * c) mod m"
  shows "t1 = t2"
proof -
  from eq have "m dvd (t1 * c - t2 * c)"
    by (simp add: mod_eq_dvd_iff)
  then have "m dvd (t1 - t2) * c"
    by (simp add: left_diff_distrib)
  with cop have "m dvd (t1 - t2)"
    by (simp add: coprime_commute coprime_dvd_mult_left_iff)
  then have "(t1 - t2) mod m = 0"
    by simp
  then have "t1 mod m = t2 mod m"
    by (simp add: mod_eq_dvd_iff \<open>m dvd t1 - t2\<close>)
  with t1 t2 show ?thesis
    by simp
qed

text \<open>
  C2. For non-negative target, exponent and base and modulus at least 1,
  \<^verbatim>\<open>apply\<close> returns the target unchanged when it is at least the modulus, and
  \<open>(target * base ^ exponent) mod modulus\<close> otherwise; \<^verbatim>\<open>apply(5, 3, 2, 7) = 5\<close> and
  \<^verbatim>\<open>apply(9, 1, 2, 7) = 9\<close>.
\<close>

theorem apply_spec:
  "0 \<le> tv \<Longrightarrow> 0 \<le> b \<Longrightarrow> 1 \<le> m \<Longrightarrow>
     ModularExp_apply tv ev b m = Inr (if tv \<ge> m then tv else (tv * b ^ ev) mod m)
     \<and> ModularExp_apply 5 3 2 7 = Inr 5 \<and> ModularExp_apply 9 1 2 7 = Inr 9"
  by (simp add: ModularExp_apply_def)

theorem apply_spec_witness:
  "(0::int) \<le> 3 \<and> (0::int) \<le> 2 \<and> (1::int) \<le> 5 \<and> ModularExp_apply 3 2 2 5 = Inr 2
     \<and> ModularExp_apply 5 3 2 7 = Inr 5 \<and> ModularExp_apply 9 1 2 7 = Inr 9"
  using apply_spec [of 3 2 5 2] by simp

lemma apply_below:
  "1 \<le> m \<Longrightarrow> tv < m \<Longrightarrow> ModularExp_apply tv ev b m = Inr ((tv * b ^ ev) mod m)"
  by (simp add: ModularExp_apply_def)

lemma apply_above:
  "m \<le> tv \<Longrightarrow> ModularExp_apply tv ev b m = Inr tv"
  by (simp add: ModularExp_apply_def)

lemma apply_inj_nonneg:
  assumes m: "1 \<le> m" and cop: "coprime b m"
  shows "inj_on (\<lambda>t. ModularExp_apply t ev b m) {0..}"
proof (rule inj_onI)
  fix t1 t2 :: int
  assume t1: "t1 \<in> {0..}" and t2: "t2 \<in> {0..}"
    and eq: "ModularExp_apply t1 ev b m = ModularExp_apply t2 ev b m"
  have copp: "coprime (b ^ ev) m"
    using cop by simp
  have range: "0 \<le> (t * b ^ ev) mod m \<and> (t * b ^ ev) mod m < m" for t
    using m by simp
  consider (ll) "t1 < m" "t2 < m" | (lg) "t1 < m" "m \<le> t2" | (gl) "m \<le> t1" "t2 < m"
    | (gg) "m \<le> t1" "m \<le> t2"
    by linarith
  then show "t1 = t2"
  proof cases
    case ll
    with eq m have "(t1 * b ^ ev) mod m = (t2 * b ^ ev) mod m"
      by (simp add: apply_below)
    with copp m t1 t2 ll show ?thesis
      by (intro coprime_mult_mod_inj [of "b ^ ev" m t1 t2]) simp_all
  next
    case lg
    with eq m have "(t1 * b ^ ev) mod m = t2"
      by (simp add: apply_below apply_above)
    with range [of t1] lg show ?thesis
      by simp
  next
    case gl
    with eq m have "t1 = (t2 * b ^ ev) mod m"
      by (simp add: apply_below apply_above)
    with range [of t2] gl show ?thesis
      by simp
  next
    case gg
    with eq show ?thesis
      by (simp add: apply_above)
  qed
qed

lemma apply_image_residues:
  assumes m: "1 \<le> m" and cop: "coprime b m"
  shows "(\<lambda>t. ModularExp_apply t ev b m) ` {0..<m} = Inr ` {0..<m}"
proof -
  let ?g = "\<lambda>t::int. (t * b ^ ev) mod m"
  have inj: "inj_on ?g {0..<m}"
  proof (rule inj_onI)
    fix t1 t2 :: int
    assume "t1 \<in> {0..<m}" "t2 \<in> {0..<m}" "?g t1 = ?g t2"
    with m cop show "t1 = t2"
      by (intro coprime_mult_mod_inj [of "b ^ ev" m t1 t2]) simp_all
  qed
  have sub: "?g ` {0..<m} \<subseteq> {0..<m}"
    using m by auto
  have "card (?g ` {0..<m}) = card {0..<m}"
    using inj by (rule card_image)
  with sub have img: "?g ` {0..<m} = {0..<m}"
    by (simp add: card_subset_eq)
  have "(\<lambda>t. ModularExp_apply t ev b m) ` {0..<m} = (\<lambda>t. Inr (?g t)) ` {0..<m}"
    using m by (intro image_cong) (simp_all add: apply_below)
  also have "\<dots> = Inr ` (?g ` {0..<m})"
    by (simp add: image_image)
  finally show ?thesis
    using img by simp
qed

text \<open>
  C10. For modulus at least 1 and a base coprime to it, and any fixed exponent, the map
  \<open>target \<mapsto> apply(target, exponent, base, modulus)\<close> is injective on the
  non-negative integers: it maps the residues \<open>[0, modulus)\<close> onto themselves and
  fixes every target at or above the modulus.
\<close>

theorem apply_permutes_residues:
  assumes "1 \<le> m" and "gcd b m = 1"
  shows "inj_on (\<lambda>t. ModularExp_apply t ev b m) {0..}
       \<and> (\<lambda>t. ModularExp_apply t ev b m) ` {0..<m} = Inr ` {0..<m}
       \<and> (\<forall>t\<ge>m. ModularExp_apply t ev b m = Inr t)"
  using assms apply_inj_nonneg [of m b ev] apply_image_residues [of m b ev]
  by (simp add: apply_above coprime_iff_gcd_eq_1)

theorem apply_permutes_residues_witness:
  "(1::int) \<le> 7 \<and> gcd (2::int) 7 = 1
     \<and> inj_on (\<lambda>t. ModularExp_apply t 3 2 7) {0..}
     \<and> (\<lambda>t. ModularExp_apply t 3 2 7) ` {0..<7} = Inr ` {0..<7}
     \<and> ModularExp_apply 9 3 2 7 = Inr 9"
proof -
  have c: "gcd (2::int) 7 = 1"
    by code_simp
  have m: "(1::int) \<le> 7"
    by simp
  from apply_permutes_residues [OF m c, of 3] c show ?thesis
    by simp
qed

subsection \<open>\<^verbatim>\<open>limit_denominator\<close> always returns\<close>

text \<open>
  The loop keeps \<open>q1 * n + q0 * d\<close> equal to the denominator of the fraction and
  \<open>gcd n d = 1\<close>, so it leaves through the \<^verbatim>\<open>break\<close> before \<open>d\<close> reaches 0, with
  \<open>0 < q1 \<le> max_denominator\<close>: none of the zero-divisor branches is taken.
\<close>


lemma ld_loop_returns:
  "1 \<le> mx \<Longrightarrow> mx < D \<Longrightarrow> 0 \<le> d \<Longrightarrow> 0 \<le> q0 \<Longrightarrow> q0 \<le> mx \<Longrightarrow> 0 \<le> q1 \<Longrightarrow> q1 \<le> mx \<Longrightarrow>
   q1 * n + q0 * d = D \<Longrightarrow> gcd n d = 1 \<Longrightarrow> 0 < n \<or> (q1 = 0 \<and> 0 < d) \<Longrightarrow>
   \<exists>p0' q0' p1' q1'. ld_loop mx p0 q0 p1 q1 n d = Inr (p0', q0', p1', q1')
      \<and> 0 \<le> q0' \<and> q0' \<le> mx \<and> 0 < q1' \<and> q1' \<le> mx"
proof (induction mx p0 q0 p1 q1 n d rule: ld_loop.induct)
  case (1 mx p0 q0 p1 q1 n d)
  have dpos: "0 < d"
  proof (rule ccontr)
    assume "\<not> 0 < d"
    with \<open>0 \<le> d\<close> have d0: "d = 0" by simp
    with "1.prems" have "0 < n" by auto
    moreover from d0 \<open>gcd n d = 1\<close> have "\<bar>n\<bar> = 1" by simp
    ultimately have "n = 1" by simp
    with d0 \<open>q1 * n + q0 * d = D\<close> have "q1 = D" by simp
    with \<open>q1 \<le> mx\<close> \<open>mx < D\<close> show False by simp
  qed
  define a where "a = n div d"
  define q2 where "q2 = q0 + a * q1"
  show ?case
  proof (cases "q2 > mx")
    case True
    have "q1 \<noteq> 0"
    proof
      assume "q1 = 0"
      with True \<open>q0 \<le> mx\<close> show False by (simp add: q2_def)
    qed
    with \<open>0 \<le> q1\<close> have "0 < q1" by simp
    moreover have "ld_loop mx p0 q0 p1 q1 n d = Inr (p0, q0, p1, q1)"
      using True dpos by (subst ld_loop.simps) (simp add: a_def q2_def Let_def)
    ultimately show ?thesis
      using "1.prems" by simp
  next
    case False
    have step: "ld_loop mx p0 q0 p1 q1 n d = ld_loop mx p1 q1 (p0 + a * p1) q2 d (n - a * d)"
      using False dpos by (subst ld_loop.simps) (simp add: a_def q2_def Let_def)
    have nmod: "n - a * d = n mod d"
      by (simp add: a_def minus_div_mult_eq_mod)
    have q2nonneg: "0 \<le> q2"
    proof (cases "q1 = 0")
      case True
      with \<open>0 \<le> q0\<close> show ?thesis by (simp add: q2_def)
    next
      case False
      with "1.prems" have "0 < n" by auto
      with dpos have "0 \<le> a" by (simp add: a_def pos_imp_zdiv_nonneg_iff)
      with \<open>0 \<le> q0\<close> \<open>0 \<le> q1\<close> show ?thesis by (simp add: q2_def)
    qed
    have rel: "q2 * d + q1 * (n - a * d) = D"
      using \<open>q1 * n + q0 * d = D\<close> by (simp add: q2_def algebra_simps)
    have g: "gcd d (n - a * d) = 1"
      using \<open>gcd n d = 1\<close> by (simp add: nmod gcd.commute gcd_red_int [symmetric])
    have "\<exists>p0' q0' p1' q1'. ld_loop mx p1 q1 (p0 + a * p1) q2 d (n - a * d) = Inr (p0', q0', p1', q1')
      \<and> 0 \<le> q0' \<and> q0' \<le> mx \<and> 0 < q1' \<and> q1' \<le> mx"
    proof (rule "1.IH" [of a q2])
      show "d \<noteq> 0" using dpos by simp
      show "a = n div d" by (simp add: a_def)
      show "q2 = q0 + a * q1" by (simp add: q2_def)
      show "\<not> mx < q2" using False by simp
      show "1 \<le> mx" "mx < D" "0 \<le> q1" "q1 \<le> mx" by fact+
      show "0 \<le> n - a * d" using dpos by (simp add: nmod)
      show "0 \<le> q2" by (rule q2nonneg)
      show "q2 \<le> mx" using False by simp
      show "q2 * d + q1 * (n - a * d) = D" by (rule rel)
      show "gcd d (n - a * d) = 1" by (rule g)
      show "0 < d \<or> q2 = 0 \<and> 0 < n - a * d" using dpos by simp
    qed
    with step show ?thesis by simp
  qed
qed

lemma quotient_of_props:
  "0 < snd (quotient_of f) \<and> gcd (fst (quotient_of f)) (snd (quotient_of f)) = 1"
  by (cases "quotient_of f")
    (auto dest: quotient_of_coprime quotient_of_denom_pos simp: coprime_iff_gcd_eq_1)

lemma denominator_Fract_le:
  assumes "0 < b"
  shows "snd (quotient_of (Fract a b)) \<le> b"
proof -
  have "snd (quotient_of (Fract a b)) = b div gcd a b"
    using assms by (simp add: quotient_of_Fract Rat.normalize_def Let_def)
  also have "\<dots> \<le> b div 1"
  proof (rule zdiv_mono2)
    have "0 < gcd a b" using assms by simp
    then show "1 \<le> gcd a b" by linarith
  qed (use assms in simp_all)
  finally show ?thesis by simp
qed

lemma limit_denominator_returns:
  assumes "1 \<le> mx"
  shows "\<exists>g. limit_denominator f mx = Inr g \<and> snd (quotient_of g) \<le> mx"
proof (cases "snd (quotient_of f) \<le> mx")
  case True
  with assms show ?thesis by (simp add: limit_denominator_def)
next
  case False
  let ?n = "fst (quotient_of f)" and ?d = "snd (quotient_of f)"
  from False have big: "mx < ?d" by simp
  have "\<exists>p0 q0 p1 q1. ld_loop mx 0 1 1 0 ?n ?d = Inr (p0, q0, p1, q1)
      \<and> 0 \<le> q0 \<and> q0 \<le> mx \<and> 0 < q1 \<and> q1 \<le> mx"
    using assms big quotient_of_props [of f]
    by (intro ld_loop_returns [of mx ?d]) simp_all
  then obtain p0 q0 p1 q1 where loop: "ld_loop mx 0 1 1 0 ?n ?d = Inr (p0, q0, p1, q1)"
    and q0: "0 \<le> q0" "q0 \<le> mx" and q1: "0 < q1" "q1 \<le> mx"
    by blast
  define k where "k = (mx - q0) div q1"
  have k0: "0 \<le> k"
    using q0 q1 by (simp add: k_def pos_imp_zdiv_nonneg_iff)
  have "k * q1 \<le> mx - q0"
    using q1 by (simp add: k_def minus_mod_eq_div_mult [symmetric])
  then have le: "q0 + k * q1 \<le> mx" by simp
  have pos: "0 < q0 + k * q1"
  proof (cases "q0 = 0")
    case True
    with q1 have "0 < k" by (simp add: k_def pos_imp_zdiv_pos_iff)
    with q1 have "0 < k * q1" by simp
    with True show ?thesis by simp
  next
    case False
    with q0 have "0 < q0" by simp
    moreover have "0 \<le> k * q1" using k0 q1 by simp
    ultimately show ?thesis by simp
  qed
  have b1: "snd (quotient_of (Fract (p0 + k * p1) (q0 + k * q1))) \<le> mx"
    using denominator_Fract_le [OF pos, of "p0 + k * p1"] le by simp
  have b2: "snd (quotient_of (Fract p1 q1)) \<le> mx"
    using denominator_Fract_le [OF q1(1), of p1] q1 by simp
  show ?thesis
    using assms False loop q1 pos b1 b2
    by (simp add: limit_denominator_def k_def [symmetric] Let_def)
qed

subsection \<open>The phase decoder and the guards of the order finders\<close>


lemma bitlen_pos: "0 < n \<Longrightarrow> 0 < bitlen n"
  by (subst bitlen.simps) simp

lemma make_order_finding_circuit_returns:
  assumes "n \<noteq> 0"
  shows "make_order_finding_circuit x n = Inr \<lparr>target_qubits = bit_length n,
           exponent_qubits = 2 * bit_length n + 3,
           gate = \<lparr>target = bit_length n, exponent = 2 * bit_length n + 3, base = x, modulus = n\<rparr>\<rparr>"
proof -
  have "0 < bit_length n"
    using assms by (simp add: bit_length_def bitlen_pos)
  then show ?thesis
    by (simp add: make_order_finding_circuit_def ModularExp_def Let_def)
qed

lemma process_measurement_cases:
  assumes "limit_denominator (eigenphase result) n = Inr f"
  shows "process_measurement result x n =
           (if fst (quotient_of f) = 0 \<or> x ^ nat (snd (quotient_of f)) mod n \<noteq> 1 then Inr None
            else Inr (Some (nat (snd (quotient_of f)))))"
  using assms by (simp add: process_measurement_def Let_def)

lemma process_measurement_returns:
  assumes "1 \<le> n"
  shows "\<exists>r. process_measurement result x n = Inr r"
proof -
  from limit_denominator_returns [OF assms, of "eigenphase result"]
  obtain f where "limit_denominator (eigenphase result) n = Inr f"
    by blast
  then show ?thesis
    by (simp add: process_measurement_cases)
qed

text \<open>
  C8. \<^verbatim>\<open>naive_order_finder(x, n)\<close> and \<^verbatim>\<open>quantum_order_finder(x, n)\<close> raise
  \<^verbatim>\<open>ValueError\<close> exactly when \<open>x < 2\<close>, or \<open>n \<le> x\<close>, or \<open>gcd x n > 1\<close>; otherwise no
  \<^verbatim>\<open>ValueError\<close> is raised: the gate's constructor accepts the register of
  \<open>n.bit_length()\<close> qubits, and \<^verbatim>\<open>limit_denominator\<close> accepts the bound \<open>n \<ge> 1\<close>,
  whatever the sampler returns.
\<close>

theorem order_finders_guard:
  "(naive_order_finder x n = Some (Inl ValueError) \<longleftrightarrow> (x < 2 \<or> n \<le> x \<or> gcd x n > 1))
   \<and> (quantum_order_finder sample x n = Inl ValueError \<longleftrightarrow> (x < 2 \<or> n \<le> x \<or> gcd x n > 1))"
proof (cases "x < 2 \<or> n \<le> x \<or> gcd x n > 1")
  case True
  then show ?thesis
    by (simp add: naive_order_finder_def quantum_order_finder_def)
next
  case False
  then have n: "n \<noteq> 0" "1 \<le> n"
    by simp_all
  have naive: "naive_order_finder x n \<noteq> Some (Inl ValueError)"
    using False by (auto simp add: naive_order_finder_def)
  obtain c where c: "make_order_finding_circuit x n = Inr c"
    using make_order_finding_circuit_returns [OF n(1)] by blast
  obtain r where "process_measurement (sample c) x n = Inr r"
    using process_measurement_returns [OF n(2)] by blast
  with c False have "quantum_order_finder sample x n = Inr r"
    by (simp add: quantum_order_finder_def)
  with naive False show ?thesis
    by simp
qed

text \<open>
  C6. For a modulus \<open>n \<ge> 1\<close>, the approximation \<open>f\<close> of the eigenphase with
  denominator limited to \<open>n\<close> exists, and \<^verbatim>\<open>process_measurement\<close> returns \<^verbatim>\<open>None\<close>
  if and only if the numerator of \<open>f\<close> is 0 or its denominator \<open>r\<close> fails
  \<open>x ^ r mod n = 1\<close>; when neither holds it returns \<open>r\<close>. A measurement encoding
  eigenphase 0 decodes to \<^verbatim>\<open>None\<close>.
\<close>

theorem process_measurement_none_iff:
  assumes "1 \<le> n"
  shows "\<exists>f. limit_denominator (eigenphase result) n = Inr f \<and> snd (quotient_of f) \<le> n
     \<and> (process_measurement result x n = Inr None
          \<longleftrightarrow> (fst (quotient_of f) = 0 \<or> x ^ nat (snd (quotient_of f)) mod n \<noteq> 1))
     \<and> (process_measurement result x n = Inr (Some (nat (snd (quotient_of f))))
          \<longleftrightarrow> \<not> (fst (quotient_of f) = 0 \<or> x ^ nat (snd (quotient_of f)) mod n \<noteq> 1))
     \<and> (eigenphase result = 0 \<longrightarrow> process_measurement result x n = Inr None)"
proof -
  from limit_denominator_returns [OF assms, of "eigenphase result"]
  obtain f where f: "limit_denominator (eigenphase result) n = Inr f" "snd (quotient_of f) \<le> n"
    by blast
  have zero: "process_measurement result x n = Inr None" if "eigenphase result = 0"
  proof -
    from that assms have "limit_denominator (eigenphase result) n = Inr 0"
      by (simp add: limit_denominator_def)
    then show ?thesis
      by (simp add: process_measurement_cases)
  qed
  from f zero show ?thesis
    by (auto simp add: process_measurement_cases)
qed

theorem process_measurement_none_iff_witness:
  "(1::int) \<le> 15
   \<and> process_measurement \<lparr>exponent_as_integer = 0, exponent_num_bits = 11\<rparr> 7 15 = Inr None"
proof -
  have "eigenphase \<lparr>exponent_as_integer = 0, exponent_num_bits = 11\<rparr> = 0"
    by (simp add: eigenphase_def round53_def)
  with process_measurement_none_iff [of 15 "\<lparr>exponent_as_integer = 0, exponent_num_bits = 11\<rparr>" 7]
  show ?thesis
    by auto
qed

lemma quotient_of_coprime_Fract:
  assumes "coprime s r" "0 < r"
  shows "quotient_of (Fract s r) = (s, r)"
  using assms by (simp add: quotient_of_Fract Rat.normalize_def Let_def coprime_iff_gcd_eq_1)

text \<open>
  C3, as amended. For coprime \<open>s\<close>, \<open>r\<close> with \<open>1 \<le> s, r \<le> n\<close>, if the eigenphase equals
  \<open>s/r\<close> exactly, then \<^verbatim>\<open>process_measurement\<close> returns \<open>r\<close> when \<open>x ^ r mod n = 1\<close>
  and \<^verbatim>\<open>None\<close> otherwise. (Without the condition on \<open>x\<close> the claim fails: the
  eigenphase \<open>1/2\<close> with \<open>x = 2\<close>, \<open>n = 15\<close> decodes to \<^verbatim>\<open>None\<close>, since
  \<open>2 ^ 2 mod 15 = 4\<close>.)
\<close>

theorem process_measurement_exact_phase:
  assumes "coprime s r" and "1 \<le> s" and "s \<le> n" and "1 \<le> r" and "r \<le> n"
    and "eigenphase result = Fract s r"
  shows "process_measurement result x n = Inr (if x ^ nat r mod n = 1 then Some (nat r) else None)"
proof -
  have q: "quotient_of (Fract s r) = (s, r)"
    using assms by (intro quotient_of_coprime_Fract) simp_all
  have "limit_denominator (eigenphase result) n = Inr (Fract s r)"
    using assms q by (simp add: limit_denominator_def)
  then show ?thesis
    using assms q by (simp add: process_measurement_cases)
qed

lemma eigenphase_half: "eigenphase \<lparr>exponent_as_integer = 1024, exponent_num_bits = 11\<rparr> = Fract 1 2"
  by (simp add: eigenphase_def round53_def Fract_of_int_quotient)

lemma eigenphase_quarter: "eigenphase \<lparr>exponent_as_integer = 512, exponent_num_bits = 11\<rparr> = Fract 1 4"
  by (simp add: eigenphase_def round53_def Fract_of_int_quotient)

theorem process_measurement_exact_phase_witness:
  "coprime (1::int) 4 \<and> (1::int) \<le> 1 \<and> (1::int) \<le> 15 \<and> (1::int) \<le> 4 \<and> (4::int) \<le> 15
   \<and> eigenphase \<lparr>exponent_as_integer = 512, exponent_num_bits = 11\<rparr> = Fract 1 4
   \<and> process_measurement \<lparr>exponent_as_integer = 512, exponent_num_bits = 11\<rparr> 7 15 = Inr (Some 4)"
  using process_measurement_exact_phase [of 1 4 15 "\<lparr>exponent_as_integer = 512, exponent_num_bits = 11\<rparr>" 7]
    eigenphase_quarter
  by simp

theorem process_measurement_exact_phase_counterexample:
  "coprime (1::int) 2 \<and> (1::int) \<le> 1 \<and> (1::int) \<le> 15 \<and> (1::int) \<le> 2 \<and> (2::int) \<le> 15
   \<and> eigenphase \<lparr>exponent_as_integer = 1024, exponent_num_bits = 11\<rparr> = Fract 1 2
   \<and> process_measurement \<lparr>exponent_as_integer = 1024, exponent_num_bits = 11\<rparr> 2 15 = Inr None
   \<and> process_measurement \<lparr>exponent_as_integer = 1024, exponent_num_bits = 11\<rparr> 2 15 \<noteq> Inr (Some 2)"
proof -
  have q: "quotient_of (Fract 1 2) = (1, 2)"
    by (intro quotient_of_coprime_Fract) simp_all
  have "limit_denominator (eigenphase \<lparr>exponent_as_integer = 1024, exponent_num_bits = 11\<rparr>) 15 = Inr (Fract 1 2)"
    by (simp add: limit_denominator_def eigenphase_half q)
  then have "process_measurement \<lparr>exponent_as_integer = 1024, exponent_num_bits = 11\<rparr> 2 15 = Inr None"
    by (simp add: process_measurement_cases q)
  then show ?thesis
    by (simp add: eigenphase_half)
qed

subsection \<open>The classical order finder\<close>


lemma power_mod_one_exists:
  fixes x n :: int
  assumes n: "1 < n" and cop: "coprime x n"
  shows "\<exists>r>0. x ^ r mod n = 1"
proof -
  let ?f = "\<lambda>i::nat. x ^ i mod n"
  have sub: "?f ` {0..nat n} \<subseteq> {0..<n}"
    using n by auto
  have "card (?f ` {0..nat n}) \<le> card {0..<n}"
    by (rule card_mono) (use sub in simp_all)
  also have "\<dots> < card {0..nat n}"
    using n by simp
  finally have "\<not> inj_on ?f {0..nat n}"
    by (rule pigeonhole)
  then obtain i j where ij: "i \<noteq> j" "?f i = ?f j"
    by (auto simp: inj_on_def)
  have key: "\<exists>r>0. x ^ r mod n = 1" if lt: "i < j" and eq: "x ^ i mod n = x ^ j mod n" for i j :: nat
  proof -
    have split: "x ^ j = x ^ i * x ^ (j - i)"
      using lt by (simp flip: power_add)
    from eq have "x ^ j mod n = x ^ i mod n"
      by simp
    then have "n dvd x ^ j - x ^ i"
      by (simp add: mod_eq_dvd_iff)
    then have "n dvd x ^ i * x ^ (j - i) - x ^ i"
      by (simp add: split)
    then have "n dvd x ^ i * (x ^ (j - i) - 1)"
      by (simp add: right_diff_distrib)
    moreover have "coprime n (x ^ i)"
      using cop by (simp add: coprime_commute)
    ultimately have "n dvd x ^ (j - i) - 1"
      by (simp add: coprime_dvd_mult_right_iff)
    then have "x ^ (j - i) mod n = 1 mod n"
      by (simp add: mod_eq_dvd_iff)
    with n lt show ?thesis
      by (intro exI [of _ "j - i"]) simp
  qed
  from ij show ?thesis
    by (cases "i < j") (auto intro: key [of i j] key [of j i])
qed


lemma order_of_props:
  fixes x n :: int
  assumes "1 < n" and "coprime x n"
  shows "0 < order_of x n" and "x ^ order_of x n mod n = 1"
    and "\<And>k. 0 < k \<Longrightarrow> k < order_of x n \<Longrightarrow> x ^ k mod n \<noteq> 1"
proof -
  from power_mod_one_exists [OF assms] obtain r where r: "0 < r \<and> x ^ r mod n = 1"
    by blast
  then have "0 < order_of x n \<and> x ^ order_of x n mod n = 1"
    unfolding order_of_def by (rule LeastI)
  then show "0 < order_of x n" and "x ^ order_of x n mod n = 1"
    by simp_all
  fix k :: nat
  assume "0 < k" and "k < order_of x n"
  then show "x ^ k mod n \<noteq> 1"
    unfolding order_of_def using not_less_Least by blast
qed

lemma naive_loop_reaches_order:
  fixes x n :: int
  assumes n: "1 < n" and cop: "coprime x n"
  shows "0 < r \<Longrightarrow> r \<le> order_of x n \<Longrightarrow> naive_loop x n r (x ^ r mod n) = Some (order_of x n)"
proof (induction "order_of x n - r" arbitrary: r)
  case 0
  then have "r = order_of x n" by simp
  then show ?case
    using order_of_props(2) [OF n cop] by (subst naive_loop.simps) simp
next
  case (Suc d)
  then have lt: "r < order_of x n" by simp
  with Suc.prems order_of_props(3) [OF n cop, of r] have ne: "x ^ r mod n \<noteq> 1"
    by simp
  have "(x * (x ^ r mod n)) mod n = x ^ (r + 1) mod n"
    by (simp add: mod_mult_right_eq)
  moreover have "naive_loop x n (r + 1) (x ^ (r + 1) mod n) = Some (order_of x n)"
    using Suc.hyps(2) lt by (intro Suc.hyps(1)) simp_all
  ultimately show ?case
    using ne by (subst naive_loop.simps) simp
qed

lemma naive_order_finder_order:
  fixes x n :: int
  assumes "2 \<le> x" and "x < n" and "gcd x n = 1"
  shows "naive_order_finder x n = Some (Inr (order_of x n))"
proof -
  have n: "1 < n" and cop: "coprime x n"
    using assms by (simp_all add: coprime_iff_gcd_eq_1)
  have "x ^ 1 mod n = x"
    using assms by simp
  moreover have "naive_loop x n 1 (x ^ 1 mod n) = Some (order_of x n)"
    using order_of_props(1) [OF n cop] by (intro naive_loop_reaches_order [OF n cop]) simp_all
  ultimately have "naive_loop x n 1 x = Some (order_of x n)"
    by simp
  with assms show ?thesis
    by (simp add: naive_order_finder_def)
qed

text \<open>
  C7. For \<open>2 \<le> x < n\<close> with \<open>gcd x n = 1\<close>, \<^verbatim>\<open>naive_order_finder(x, n)\<close> returns
  an \<open>r\<close> with \<open>x ^ r mod n = 1\<close>, and no smaller positive integer satisfies this:
  it returns the multiplicative order of \<open>x\<close> modulo \<open>n\<close>.
\<close>

theorem naive_order_finder_least:
  assumes "2 \<le> x" and "x < n" and "gcd x n = 1"
  shows "\<exists>r. naive_order_finder x n = Some (Inr r) \<and> 0 < r \<and> x ^ r mod n = 1
           \<and> (\<forall>k. 0 < k \<and> k < r \<longrightarrow> x ^ k mod n \<noteq> 1)"
proof -
  have n: "1 < n" and cop: "coprime x n"
    using assms by (simp_all add: coprime_iff_gcd_eq_1)
  show ?thesis
    using naive_order_finder_order [OF assms] order_of_props [OF n cop] by auto
qed

lemma gcd_10_33: "gcd (10::int) 33 = 1"
  by code_simp

lemma gcd_7_15: "gcd (7::int) 15 = 1"
  by code_simp

theorem naive_order_finder_least_witness:
  "(2::int) \<le> 10 \<and> (10::int) < 33 \<and> gcd (10::int) 33 = 1
   \<and> naive_order_finder 10 33 = Some (Inr 2) \<and> (10::int) ^ 2 mod 33 = 1 \<and> (10::int) ^ 1 mod 33 \<noteq> 1"
proof -
  from naive_order_finder_least [of 10 33] gcd_10_33
  obtain r where r: "naive_order_finder 10 33 = Some (Inr r)" "0 < r" "(10::int) ^ r mod 33 = 1"
    "\<forall>k. 0 < k \<and> k < r \<longrightarrow> (10::int) ^ k mod 33 \<noteq> 1"
    by auto
  have "\<not> 2 < r"
    using r(4) by (auto dest: spec [of _ 2])
  moreover have "r \<noteq> 1"
    using r(3) by auto
  ultimately have "r = 2"
    using r(2) by simp
  with r(1) gcd_10_33 show ?thesis
    by simp
qed

text \<open>
  C9. For \<open>2 \<le> x < n\<close> with \<open>gcd x n = 1\<close>, \<^verbatim>\<open>naive_order_finder(x, n)\<close>
  terminates: the loop started at \<open>r = 1\<close>, \<open>y = x\<close> reaches \<open>y = 1\<close> after finitely
  many steps and the function returns.
\<close>

theorem naive_order_finder_terminates:
  assumes "2 \<le> x" and "x < n" and "gcd x n = 1"
  shows "\<exists>r. naive_loop x n 1 x = Some r \<and> naive_order_finder x n = Some (Inr r)"
proof -
  from naive_order_finder_order [OF assms] assms show ?thesis
    by (auto simp add: naive_order_finder_def)
qed

theorem naive_order_finder_terminates_witness:
  "(2::int) \<le> 7 \<and> (7::int) < 15 \<and> gcd (7::int) 15 = 1
   \<and> (\<exists>r. naive_loop 7 15 1 7 = Some r \<and> naive_order_finder 7 15 = Some (Inr r))"
  using naive_order_finder_terminates [of 7 15] gcd_7_15 by simp

subsection \<open>The factor search\<close>



lemma root_is_proper_factor:
  fixes c n :: int
  assumes n: "2 \<le> n" and c: "0 \<le> c" and k: "2 \<le> k" and pw: "c ^ k = n"
  shows "1 < c \<and> c < n \<and> c dvd n"
proof -
  have "c \<noteq> 0"
    using pw n k by (auto simp: power_0_left)
  moreover have "c \<noteq> 1"
    using pw n by auto
  ultimately have c2: "2 \<le> c"
    using c by simp
  obtain j where j: "k = Suc (Suc j)"
    using k by (metis Suc_le_D numeral_2_eq_2 Suc_le_mono)
  have "1 \<le> c ^ j"
    using c2 by simp
  then have "c * 1 \<le> c * c ^ j"
    using c2 by (intro mult_left_mono) simp_all
  then have "2 * c \<le> c * (c * c ^ j)"
    using c2 by (intro mult_mono) simp_all
  then have "2 * c \<le> n"
    using pw j by simp
  with c2 have "c < n"
    by simp
  moreover have "c dvd n"
    by (simp add: pw [symmetric] j)
  ultimately show ?thesis
    using c2 by simp
qed

lemma prime_power_loop_factor:
  assumes "2 \<le> n" and "\<And>k c. fl_pow fl n k = Inr c \<Longrightarrow> 0 \<le> c"
    and "\<And>k. k \<in> set ks \<Longrightarrow> 2 \<le> k"
    and "prime_power_loop fl n ks = Inr (Some c)"
  shows "1 < c \<and> c < n \<and> c dvd n"
  using assms(3,4)
proof (induction ks)
  case Nil
  then show ?case by simp
next
  case (Cons k ks)
  from Cons.prems(2) obtain q where q: "fl_pow fl n k = Inr q"
    by (cases "fl_pow fl n k") simp_all
  then have q0: "0 \<le> q"
    by (rule assms(2))
  have k: "2 \<le> k"
    using Cons.prems(1) by simp
  consider (fl) "\<lfloor>q\<rfloor> ^ k = n" | (ce) "\<lfloor>q\<rfloor> ^ k \<noteq> n" "\<lceil>q\<rceil> ^ k = n"
    | (skip) "\<lfloor>q\<rfloor> ^ k \<noteq> n" "\<lceil>q\<rceil> ^ k \<noteq> n"
    by blast
  then show ?case
  proof cases
    case fl
    with Cons.prems(2) q have "c = \<lfloor>q\<rfloor>"
      by (simp add: Let_def)
    moreover have "0 \<le> \<lfloor>q\<rfloor>"
      using q0 by simp
    ultimately show ?thesis
      using root_is_proper_factor [OF assms(1) _ k, of c] fl by simp
  next
    case ce
    with Cons.prems(2) q have "c = \<lceil>q\<rceil>"
      by (simp add: Let_def)
    moreover have "0 \<le> \<lceil>q\<rceil>"
      using q0 by (simp add: ceiling_le_iff le_ceiling_iff)
    ultimately show ?thesis
      using root_is_proper_factor [OF assms(1) _ k, of c] ce by simp
  next
    case skip
    with Cons.prems(2) q have "prime_power_loop fl n ks = Inr (Some c)"
      by (simp add: Let_def)
    then show ?thesis
      using Cons.prems(1) by (intro Cons.IH) simp_all
  qed
qed

lemma find_factor_of_prime_power_factor:
  assumes "2 \<le> n" and "\<And>k c. fl_pow fl n k = Inr c \<Longrightarrow> 0 \<le> c"
    and "find_factor_of_prime_power fl n = Inr (Some c)"
  shows "1 < c \<and> c < n \<and> c dvd n"
proof (rule prime_power_loop_factor [OF assms(1,2)])
  show "prime_power_loop fl n [2..<nat (\<lfloor>fl_log2 fl n\<rfloor> + 1)] = Inr (Some c)"
    using assms(1,3) by (simp add: find_factor_of_prime_power_def)
  show "\<And>k. k \<in> set [2..<nat (\<lfloor>fl_log2 fl n\<rfloor> + 1)] \<Longrightarrow> 2 \<le> k"
    by simp
qed

lemma attempts_factor:
  "attempts n order_finder draws i k = Inr (Some c) \<Longrightarrow> 1 < c \<and> c < n \<and> c dvd n"
proof (induction k arbitrary: i)
  case 0
  then show ?case by simp
next
  case (Suc k)
  from Suc.prems obtain x where x: "randint 2 (n - 1) (draws i) = Inr x"
    by (cases "randint 2 (n - 1) (draws i)") simp_all
  show ?case
  proof (cases "1 < gcd x n \<and> gcd x n < n")
    case True
    with Suc.prems x have "c = gcd x n"
      by (simp add: Let_def)
    with True show ?thesis
      by simp
  next
    case False
    note nogcd = this
    show ?thesis
    proof (cases "order_finder i x n")
      case (Inl e)
      with Suc.prems x nogcd show ?thesis
        by (simp add: Let_def)
    next
      case (Inr ro)
      show ?thesis
      proof (cases ro)
        case None
        with Suc.prems x nogcd Inr have "attempts n order_finder draws (Suc i) k = Inr (Some c)"
          by (simp add: Let_def)
        then show ?thesis
          by (rule Suc.IH)
      next
        case (Some r)
        define y where "y = x ^ (r div 2) mod n"
        define g where "g = gcd (y - 1) n"
        have "attempts n order_finder draws i (Suc k) =
              (if r mod 2 \<noteq> 0 then attempts n order_finder draws (Suc i) k
               else if 1 < y \<and> y < n
                    then if 1 < g \<and> g < n then Inr (Some g)
                         else attempts n order_finder draws (Suc i) k
                    else Inl AssertionError)"
          using x nogcd Inr Some by (auto simp add: Let_def y_def g_def)
        with Suc.prems consider "attempts n order_finder draws (Suc i) k = Inr (Some c)"
          | "1 < g \<and> g < n" "c = g"
          by (auto split: if_splits)
        then show ?thesis
        proof cases
          case 1
          then show ?thesis by (rule Suc.IH)
        next
          case 2
          then show ?thesis by (simp add: g_def)
        qed
      qed
    qed
  qed
qed

lemma isprime_2: "isprime 2"
  by (simp add: isprime_def)

text \<open>
  C5. For \<open>n \<ge> 2\<close>, every order finder, every number of attempts and every sequence
  of random draws: whenever \<^verbatim>\<open>find_factor\<close> returns a value \<open>c\<close> (not \<^verbatim>\<open>None\<close>),
  \<open>n mod c = 0\<close> and \<open>1 < c < n\<close>. The floating-point library enters through one fact
  only: \<^verbatim>\<open>math.pow\<close> of a positive number is never negative.
\<close>

theorem find_factor_nontrivial:
  assumes "2 \<le> n" and "\<And>k q. fl_pow fl n k = Inr q \<Longrightarrow> 0 \<le> q"
    and "find_factor fl draws n order_finder max_attempts = Inr (Some c)"
  shows "n mod c = 0 \<and> 1 < c \<and> c < n"
proof -
  have np: "\<not> isprime n"
    using assms(3) by (auto simp add: find_factor_def)
  have "1 < c \<and> c < n \<and> c dvd n"
  proof (cases "n mod 2 = 0")
    case True
    with assms(3) np have c: "c = 2"
      by (simp add: find_factor_def)
    from np isprime_2 have "n \<noteq> 2"
      by auto
    with assms(1) True have "2 < n"
      by simp
    with True c show ?thesis
      by (simp add: dvd_eq_mod_eq_0)
  next
    case False
    with assms(3) np
    consider "find_factor_of_prime_power fl n = Inr (Some c)"
      | "attempts n order_finder draws 0 (nat max_attempts) = Inr (Some c)"
      by (auto simp add: find_factor_def split: sum.splits option.splits)
    then show ?thesis
    proof cases
      case 1
      show ?thesis
        by (rule find_factor_of_prime_power_factor [OF assms(1) _ 1]) (rule assms(2))
    next
      case 2
      then show ?thesis
        by (rule attempts_factor)
    qed
  qed
  then show ?thesis
    by (simp add: dvd_eq_mod_eq_0)
qed


lemma sample_floats_pow_nonneg:
  "fl_pow sample_floats n k = Inr q \<Longrightarrow> 0 \<le> q"
  by (auto simp add: sample_floats_def split: if_splits)

theorem find_factor_nontrivial_witness:
  "(2::int) \<le> 21
   \<and> find_factor sample_floats (\<lambda>i. 0) 21
        (\<lambda>i. quantum_order_finder
           (\<lambda>c. \<lparr>exponent_as_integer = 1365, exponent_num_bits = exponent_qubits c\<rparr>)) 5
       = Inr (Some 7)
   \<and> (21::int) mod 7 = 0 \<and> (1::int) < 7 \<and> (7::int) < 21"
proof -
  have run: "find_factor sample_floats (\<lambda>i. 0) 21
        (\<lambda>i. quantum_order_finder
           (\<lambda>c. \<lparr>exponent_as_integer = 1365, exponent_num_bits = exponent_qubits c\<rparr>)) 5
       = Inr (Some 7)"
    by code_simp
  have n: "(2::int) \<le> 21"
    by simp
  from find_factor_nontrivial [OF n sample_floats_pow_nonneg run] run show ?thesis
    by simp
qed

text \<open>
  C1. The claim: in every attempt in which the order finder returns an even \<open>r\<close> for the
  sampled base \<open>x\<close> (with \<open>gcd x n = 1\<close> and \<open>2 \<le> x < n\<close>), \<open>y = x ^ (r div 2) mod n\<close>
  satisfies \<open>1 < y < n\<close>, so that the assertion never fails. This holds when \<open>r\<close> is the
  order of \<open>x\<close> (\<open>true_order_assertion\<close> below), but the quantum order finder only
  checks \<open>x ^ r mod n = 1\<close> and can return a proper multiple of the order. For
  \<open>n = 21\<close>, the draw \<open>x = 4\<close> (of order 3) and the 13-bit sample 1365 (the phase
  estimate nearest to \<open>1/6\<close>) it returns \<open>r = 6\<close>; then \<open>y = 4 ^ 3 mod 21 = 1\<close> and
  \<^verbatim>\<open>find_factor\<close> stops with \<^verbatim>\<open>AssertionError\<close>.
\<close>

theorem find_factor_assertion_fails:
  "find_factor sample_floats (\<lambda>i. 2) 21
     (\<lambda>i. quantum_order_finder
        (\<lambda>c. \<lparr>exponent_as_integer = 1365, exponent_num_bits = exponent_qubits c\<rparr>)) 5
   = Inl AssertionError
   \<and> randint 2 (21 - 1) 2 = Inr 4
   \<and> quantum_order_finder
        (\<lambda>c. \<lparr>exponent_as_integer = 1365, exponent_num_bits = exponent_qubits c\<rparr>) 4 21
      = Inr (Some 6)
   \<and> naive_order_finder 4 21 = Some (Inr 3)
   \<and> (4::int) ^ (6 div 2) mod 21 = 1"
proof -
  have g: "gcd (4::int) 21 = 1"
    by code_simp
  have "naive_loop 4 21 1 4 = Some 3"
    by (simp add: naive_loop.simps)
  with g have naive: "naive_order_finder 4 21 = Some (Inr 3)"
    by (simp add: naive_order_finder_def)
  have "find_factor sample_floats (\<lambda>i. 2) 21
     (\<lambda>i. quantum_order_finder
        (\<lambda>c. \<lparr>exponent_as_integer = 1365, exponent_num_bits = exponent_qubits c\<rparr>)) 5
   = Inl AssertionError
   \<and> randint 2 (21 - 1) 2 = Inr 4
   \<and> quantum_order_finder
        (\<lambda>c. \<lparr>exponent_as_integer = 1365, exponent_num_bits = exponent_qubits c\<rparr>) 4 21
      = Inr (Some 6)
   \<and> (4::int) ^ (6 div 2) mod 21 = 1"
    by code_simp
  with naive show ?thesis
    by simp
qed

lemma true_order_assertion:
  fixes x n :: int
  assumes "2 \<le> x" and "x < n" and "gcd x n = 1" and "even (order_of x n)"
  shows "1 < x ^ (order_of x n div 2) mod n \<and> x ^ (order_of x n div 2) mod n < n"
proof -
  have n: "1 < n" and cop: "coprime x n"
    using assms by (simp_all add: coprime_iff_gcd_eq_1)
  let ?r = "order_of x n" and ?y = "x ^ (order_of x n div 2) mod n"
  have rpos: "0 < ?r"
    by (rule order_of_props(1) [OF n cop])
  with assms(4) have half: "0 < ?r div 2" "?r div 2 < ?r"
    by (auto elim: evenE)
  then have "?y \<noteq> 1"
    by (intro order_of_props(3) [OF n cop])
  moreover have "?y \<noteq> 0"
  proof
    assume "?y = 0"
    then have "n dvd x ^ (?r div 2)"
      by (simp add: dvd_eq_mod_eq_0)
    moreover have "coprime n (x ^ (?r div 2))"
      using cop by (simp add: coprime_commute)
    ultimately have "is_unit n"
      by (metis coprime_absorb_left)
    with n show False
      by simp
  qed
  moreover have "0 \<le> ?y" "?y < n"
    using n by simp_all
  ultimately show ?thesis
    by simp
qed

subsection \<open>The prime-power shortcut\<close>


lemma isprime_natD:
  assumes "isprime p"
  shows "2 \<le> nat p" and "\<And>d. d dvd nat p \<Longrightarrow> d = 1 \<or> d = nat p"
proof -
  from assms have p2: "2 \<le> p" and nodiv: "filter (\<lambda>d. d dvd nat p) [2..<nat p] = []"
    by (simp_all add: isprime_def)
  show "2 \<le> nat p"
    using p2 by simp
  fix d
  assume d: "d dvd nat p"
  from nodiv have "\<forall>d\<in>set [2..<nat p]. \<not> d dvd nat p"
    by (simp add: filter_empty_conv)
  with d have "\<not> (2 \<le> d \<and> d < nat p)"
    by auto
  moreover have "d \<le> nat p"
    using d p2 by (intro dvd_imp_le) simp_all
  moreover have "d \<noteq> 0"
    using d p2 by (intro notI) simp
  ultimately show "d = 1 \<or> d = nat p"
    by linarith
qed

lemma prime_coprime_or_dvd:
  fixes P a :: nat
  assumes "\<And>d. d dvd P \<Longrightarrow> d = 1 \<or> d = P"
  shows "P dvd a \<or> coprime P a"
proof (cases "P dvd a")
  case True
  then show ?thesis by simp
next
  case False
  have "coprime P a"
  proof (rule coprimeI)
    fix c
    assume "c dvd P" and "c dvd a"
    with assms [of c] False show "is_unit c"
      by auto
  qed
  then show ?thesis by simp
qed

lemma dvd_prime_power:
  fixes P c :: nat
  assumes pr: "\<And>d. d dvd P \<Longrightarrow> d = 1 \<or> d = P" and P: "2 \<le> P"
  shows "c dvd P ^ k \<Longrightarrow> \<exists>m\<le>k. c = P ^ m"
proof (induction k arbitrary: c)
  case 0
  then show ?case by simp
next
  case (Suc k)
  show ?case
  proof (cases "P dvd c")
    case True
    then obtain c' where c': "c = P * c'"
      by (rule dvdE)
    with Suc.prems P have "c' dvd P ^ k"
      by simp
    then obtain m where "m \<le> k" "c' = P ^ m"
      using Suc.IH by blast
    then show ?thesis
      using c' by (intro exI [of _ "Suc m"]) simp
  next
    case False
    then have "coprime P c"
      using prime_coprime_or_dvd [OF pr, of c] by blast
    then have "coprime c P"
      by (simp add: coprime_commute)
    with Suc.prems have "c dvd P ^ k"
      by (simp add: coprime_dvd_mult_right_iff)
    then obtain m where "m \<le> k" "c = P ^ m"
      using Suc.IH by blast
    then show ?thesis
      by (intro exI [of _ m]) simp
  qed
qed

lemma root_of_prime_power:
  fixes P c :: nat
  assumes pr: "\<And>d. d dvd P \<Longrightarrow> d = 1 \<or> d = P" and P: "2 \<le> P"
    and i: "0 < i" and eq: "c ^ i = P ^ k"
  shows "i dvd k \<and> c = P ^ (k div i)"
proof -
  have "c dvd c ^ i"
    using i by simp
  with eq have "c dvd P ^ k"
    by simp
  then obtain m where m: "c = P ^ m"
    using dvd_prime_power [OF pr P] by blast
  with eq have "P ^ (m * i) = P ^ k"
    by (simp add: power_mult)
  with P have "m * i = k"
    by simp
  with i m show ?thesis
    by auto
qed

lemma int_root_of_prime_power:
  fixes c p :: int
  assumes "isprime p" and i: "0 < i" and eq: "c ^ i = p ^ k"
  shows "i dvd k \<and> \<bar>c\<bar> = p ^ (k div i)"
proof -
  have p0: "0 \<le> p"
    using assms(1) by (simp add: isprime_def)
  have "int (nat \<bar>c\<bar> ^ i) = \<bar>c ^ i\<bar>"
    by (simp add: power_abs)
  also have "\<dots> = p ^ k"
    using eq p0 by simp
  also have "\<dots> = int (nat p ^ k)"
    using p0 by simp
  finally have "nat \<bar>c\<bar> ^ i = nat p ^ k"
    by (simp only: int_int_eq)
  from root_of_prime_power [OF isprime_natD(2) [OF assms(1)] isprime_natD(1) [OF assms(1)] i this]
  have d: "i dvd k" and "nat \<bar>c\<bar> = nat p ^ (k div i)"
    by simp_all
  then have "int (nat \<bar>c\<bar>) = int (nat p ^ (k div i))"
    by simp
  then have "\<bar>c\<bar> = p ^ (k div i)"
    using p0 by simp
  with d show ?thesis
    by simp
qed

lemma prime_power_loop_first_hit:
  assumes hit: "\<And>ks. prime_power_loop fl n (j # ks) = Inr (Some c)"
    and miss: "\<And>i ks. a \<le> i \<Longrightarrow> i < j \<Longrightarrow> prime_power_loop fl n (i # ks) = prime_power_loop fl n ks"
    and "a \<le> j" and "j < b"
  shows "prime_power_loop fl n [a..<b] = Inr (Some c)"
  using assms(2-)
proof (induction "j - a" arbitrary: a)
  case 0
  then have "a = j" by simp
  with \<open>j < b\<close> have "[a..<b] = j # [Suc j..<b]"
    by (simp add: upt_conv_Cons)
  then show ?case
    by (simp only: hit)
next
  case (Suc d)
  then have lt: "a < j" by simp
  with \<open>j < b\<close> have "[a..<b] = a # [Suc a..<b]"
    by (simp add: upt_conv_Cons)
  moreover have "prime_power_loop fl n (a # [Suc a..<b]) = prime_power_loop fl n [Suc a..<b]"
    using lt by (intro Suc.prems(1)) simp_all
  moreover have "prime_power_loop fl n [Suc a..<b] = Inr (Some c)"
  proof (rule Suc.hyps(1))
    show "d = j - Suc a" using Suc.hyps(2) by simp
    show "\<And>i ks. Suc a \<le> i \<Longrightarrow> i < j \<Longrightarrow> prime_power_loop fl n (i # ks) = prime_power_loop fl n ks"
      by (rule Suc.prems(1)) simp_all
    show "Suc a \<le> j" using lt by simp
    show "j < b" by fact
  qed
  ultimately show ?case
    by simp
qed

lemma least_divisor:
  assumes "2 \<le> (k::nat)"
  shows "\<exists>j. 2 \<le> j \<and> j \<le> k \<and> j dvd k \<and> (\<forall>i. 2 \<le> i \<and> i < j \<longrightarrow> \<not> i dvd k)"
proof -
  define j where "j = (LEAST j. 2 \<le> j \<and> j dvd k)"
  have ex: "2 \<le> k \<and> k dvd k"
    using assms by simp
  then have "2 \<le> j \<and> j dvd k"
    unfolding j_def by (rule LeastI)
  moreover have "j \<le> k"
    unfolding j_def using ex by (rule Least_le)
  moreover have "\<not> i dvd k" if "2 \<le> i" "i < j" for i
    using that not_less_Least [of i "\<lambda>j. 2 \<le> j \<and> j dvd k"] by (simp add: j_def)
  ultimately show ?thesis
    by blast
qed

text \<open>
  When the floating-point results are accurate as far as the loop needs, the loop returns
  at the least \<open>j \<ge> 2\<close> dividing \<open>k\<close>. The assumptions: \<^verbatim>\<open>math.log2\<close> does not
  fall below the true \<open>\<lfloor>log2 n\<rfloor>\<close>, \<^verbatim>\<open>math.pow(n, 1 / j)\<close> returns for
  \<open>2 \<le> j \<le> k\<close>, and where \<open>j\<close> divides \<open>k\<close> its floor or its ceiling is the exact
  root. They hold for small \<open>n\<close> and fail for large ones, where a double no longer
  resolves the root to the nearest integer.
\<close>

lemma first_root_when_floats_accurate:
  assumes pr: "isprime p" and k: "2 \<le> k"
    and log: "p ^ k < 2 ^ nat (\<lfloor>fl_log2 fl (p ^ k)\<rfloor> + 1)"
    and ok: "\<And>j. 2 \<le> j \<Longrightarrow> j \<le> k \<Longrightarrow> \<exists>q. fl_pow fl (p ^ k) j = Inr q"
    and acc: "\<And>j q. 2 \<le> j \<Longrightarrow> j dvd k \<Longrightarrow> fl_pow fl (p ^ k) j = Inr q
                \<Longrightarrow> \<lfloor>q\<rfloor> = p ^ (k div j) \<or> \<lceil>q\<rceil> = p ^ (k div j)"
  shows "\<exists>j. 2 \<le> j \<and> j dvd k \<and> (\<forall>i. 2 \<le> i \<and> i < j \<longrightarrow> \<not> i dvd k)
           \<and> find_factor_of_prime_power fl (p ^ k) = Inr (Some (p ^ (k div j)))
           \<and> (isprime (int k) \<longrightarrow> find_factor_of_prime_power fl (p ^ k) = Inr (Some p))"
proof -
  let ?n = "p ^ k"
  have p2: "2 \<le> p"
    using pr by (simp add: isprime_def)
  from least_divisor [OF k] obtain j
    where j: "2 \<le> j" "j \<le> k" "j dvd k" and least: "\<And>i. 2 \<le> i \<Longrightarrow> i < j \<Longrightarrow> \<not> i dvd k"
    by blast
  define r where "r = p ^ (k div j)"
  have r1: "1 \<le> r"
    using p2 by (simp add: r_def)
  have rj: "r ^ j = ?n"
    using j(3) by (simp add: r_def flip: power_mult)
  have hit: "prime_power_loop fl ?n (j # ks) = Inr (Some r)" for ks
  proof -
    from ok [OF j(1,2)] obtain q where q: "fl_pow fl ?n j = Inr q"
      by blast
    from acc [OF j(1,3) q] have fc: "\<lfloor>q\<rfloor> = r \<or> \<lceil>q\<rceil> = r"
      by (simp add: r_def)
    show ?thesis
    proof (cases "\<lfloor>q\<rfloor> = r")
      case True
      with q rj show ?thesis
        by (simp add: Let_def)
    next
      case False
      with fc have ce: "\<lceil>q\<rceil> = r"
        by simp
      have "\<lfloor>q\<rfloor> ^ j \<noteq> ?n"
      proof
        assume "\<lfloor>q\<rfloor> ^ j = ?n"
        with int_root_of_prime_power [OF pr _ this] j(1) have "\<bar>\<lfloor>q\<rfloor>\<bar> = r"
          by (simp add: r_def)
        with False have "\<lfloor>q\<rfloor> = - r"
          by linarith
        moreover have "\<lceil>q\<rceil> \<le> \<lfloor>q\<rfloor> + 1"
          using ceiling_diff_floor_le_1 [of q] by simp
        ultimately show False
          using ce r1 by simp
      qed
      with q ce rj show ?thesis
        by (simp add: Let_def)
    qed
  qed
  have miss: "prime_power_loop fl ?n (i # ks) = prime_power_loop fl ?n ks"
    if "2 \<le> i" "i < j" for i ks
  proof -
    from that j(2) ok [of i] obtain q where q: "fl_pow fl ?n i = Inr q"
      by auto
    have "c ^ i \<noteq> ?n" for c :: int
      using int_root_of_prime_power [OF pr, of i c k] least [OF that] that(1) by auto
    with q show ?thesis
      by (simp add: Let_def)
  qed
  have "(2::int) ^ k \<le> p ^ k"
    using p2 by (intro power_mono) simp_all
  from this log have "(2::int) ^ k < 2 ^ nat (\<lfloor>fl_log2 fl ?n\<rfloor> + 1)"
    by (rule le_less_trans)
  then have "k < nat (\<lfloor>fl_log2 fl ?n\<rfloor> + 1)"
    by (intro power_less_imp_less_exp [of "2::int"]) simp_all
  with j(2) have jb: "j < nat (\<lfloor>fl_log2 fl ?n\<rfloor> + 1)"
    by simp
  have "prime_power_loop fl ?n [2..<nat (\<lfloor>fl_log2 fl ?n\<rfloor> + 1)] = Inr (Some r)"
    using hit miss j(1) jb by (rule prime_power_loop_first_hit)
  moreover have "0 < ?n"
    using p2 by simp
  ultimately have res: "find_factor_of_prime_power fl ?n = Inr (Some r)"
    by (simp add: find_factor_of_prime_power_def)
  have rp: "r = p" if "isprime (int k)"
  proof -
    from isprime_natD(2) [OF that, of j] j(1,3) have "j = k"
      by simp
    with k show ?thesis
      by (simp add: r_def)
  qed
  have first: "\<forall>i. 2 \<le> i \<and> i < j \<longrightarrow> \<not> i dvd k"
    using least by simp
  have prime_case: "isprime (int k) \<longrightarrow> find_factor_of_prime_power fl ?n = Inr (Some p)"
    using res rp by simp
  from res have "find_factor_of_prime_power fl ?n = Inr (Some (p ^ (k div j)))"
    by (simp only: r_def)
  with j(1,3) first prime_case show ?thesis
    by (intro exI [of _ j]) (simp only: simp_thms)
qed







end
